theory Spec2Isabelle
  imports Main "HOL-Library.Sublist"
begin

section \<open>JavaScript strings and numbers\<close>

text \<open>
  A JavaScript string is modelled as a \<^typ>\<open>string\<close>: a list of code units, here the
  code units below 256, so that \<open>length\<close> and every index are the ones JavaScript
  computes. \<open>String.prototype.trim\<close> strips white space and line terminators; in this
  range these are TAB, LF, VT, FF, CR, SP and NBSP (0xA0).
\<close>

definition isWhiteSpace :: "char \<Rightarrow> bool" where
  "isWhiteSpace c = (of_char c \<in> {9, 10, 11, 12, 13, 32, 160 :: nat})"

definition trim :: "string \<Rightarrow> string" where
  "trim s = rev (dropWhile isWhiteSpace (rev (dropWhile isWhiteSpace s)))"

text \<open>
  \<open>s.indexOf(t)\<close>: the least index at which \<open>t\<close> occurs in \<open>s\<close>, or \<open>-1\<close>. The
  auxiliary function carries the index of the position it is looking at.
\<close>

fun indexOfFrom :: "string \<Rightarrow> string \<Rightarrow> nat \<Rightarrow> int" where
  "indexOfFrom [] t k = (if t = [] then int k else - 1)"
| "indexOfFrom (c # cs) t k = (if prefix t (c # cs) then int k else indexOfFrom cs t (Suc k))"

definition indexOf :: "string \<Rightarrow> string \<Rightarrow> int" where
  "indexOf s t = indexOfFrom s t 0"

text \<open>\<open>s.lastIndexOf(c)\<close> for a one-character \<open>c\<close>: the greatest index of \<open>c\<close>, or \<open>-1\<close>.\<close>

fun lastIndexOfFrom :: "string \<Rightarrow> char \<Rightarrow> nat \<Rightarrow> int \<Rightarrow> int" where
  "lastIndexOfFrom [] c k found = found"
| "lastIndexOfFrom (d # ds) c k found =
     lastIndexOfFrom ds c (Suc k) (if d = c then int k else found)"

definition lastIndexOf :: "string \<Rightarrow> char \<Rightarrow> int" where
  "lastIndexOf s c = lastIndexOfFrom s c 0 (- 1)"

text \<open>\<open>s.includes(t)\<close>.\<close>

definition includes_str :: "string \<Rightarrow> string \<Rightarrow> bool" where
  "includes_str s t = (0 \<le> indexOf s t)"

text \<open>
  \<open>s.substring(a, b)\<close>: both indices are clamped to \<open>[0, s.length]\<close> and swapped when
  the first exceeds the second. \<open>s.substring(a)\<close> runs to the end of the string.
\<close>

definition clampIndex :: "string \<Rightarrow> int \<Rightarrow> nat" where
  "clampIndex s i = nat (min (max i 0) (int (length s)))"

definition substring2 :: "string \<Rightarrow> int \<Rightarrow> int \<Rightarrow> string" where
  "substring2 s a b =
     (let x = clampIndex s a; y = clampIndex s b
      in take (max x y - min x y) (drop (min x y) s))"

definition substring1 :: "string \<Rightarrow> int \<Rightarrow> string" where
  "substring1 s a = drop (clampIndex s a) s"

text \<open>
  \<open>getTime()\<close> of a \<open>Date\<close> is an integral number of milliseconds, or \<open>NaN\<close> for an
  invalid date. Comparisons with \<open>NaN\<close> are false, \<open>Math.max\<close> of a \<open>NaN\<close> is
  \<open>NaN\<close>, and \<open>NaN\<close> and \<open>0\<close> are the falsy numbers.
\<close>

datatype jsnum = NaN | Num int

fun js_gt :: "jsnum \<Rightarrow> jsnum \<Rightarrow> bool" where
  "js_gt (Num a) (Num b) = (b < a)"
| "js_gt _ _ = False"

fun js_max :: "jsnum \<Rightarrow> jsnum \<Rightarrow> jsnum" where
  "js_max (Num a) (Num b) = Num (max a b)"
| "js_max _ _ = NaN"

fun truthy_num :: "jsnum option \<Rightarrow> bool" where
  "truthy_num None = False"
| "truthy_num (Some NaN) = False"
| "truthy_num (Some (Num n)) = (n \<noteq> 0)"

section \<open>The collaborators\<close>

text \<open>
  \<open>Constants\<close>, \<open>FetchUtils\<close> and \<open>GitUtils\<close> are imported by the source; what the
  code takes from them are the fields of an environment: the constant
  \<open>MEDIA_PREFIX\<close>, the probe \<open>fetchDataWithMethod host path method\<close> and the check
  \<open>isFileDirty path\<close>. The probe of a path and the dirty check of a file give the same
  answer whenever they are asked during a run. \<open>new Date(s).getTime()\<close> is
  \<open>parseDate s\<close>, and the \<open>k\<close>-th reading of the wall clock
  \<open>new Date().getTime()\<close> during a run is \<open>now k\<close>: the functions that read the clock
  take the number of readings made so far and return the new count. What
  \<open>console.log\<close> prints is not modelled.
\<close>

text \<open>
  Modelled from the spec: the outcome of \<open>FetchUtils.fetchDataWithMethod\<close>, the
  specification's \<open>ResourceProber.fetchMetadata\<close>, which returns
  \<open>{headers: {last-modified?: string}}\<close> or raises unavailable. The probe throws
  (the \<open>catch\<close> in \<open>createEntries\<close> is for that), or it resolves to a response, of
  which the code reads the \<open>last-modified\<close> header only: \<open>None\<close> when the header is
  absent.
\<close>

datatype probe = Unavailable | Response "string option"

record env =
  MEDIA_PREFIX :: string
  fetchDataWithMethod :: "string \<Rightarrow> string \<Rightarrow> string \<Rightarrow> probe"
  isFileDirty :: "string \<Rightarrow> bool"
  parseDate :: "string \<Rightarrow> jsnum"
  now :: "nat \<Rightarrow> int"

datatype error = FetchError | TypeError

section \<open>PathUtils\<close>

definition getParentFromPath :: "string \<Rightarrow> string" where
  "getParentFromPath p = substring2 p 0 (lastIndexOf p CHR ''/'')"

definition PathUtils_isMedia :: "string \<Rightarrow> string \<Rightarrow> bool" where
  "PathUtils_isMedia marker resourcePath = includes_str (trim resourcePath) marker"

definition PathUtils_getHashFromMedia :: "string \<Rightarrow> string \<Rightarrow> string" where
  "PathUtils_getHashFromMedia marker resourcePath =
     (let trimmedResourcePath = trim resourcePath
      in substring2 trimmedResourcePath (int (length marker))
           (indexOf trimmedResourcePath ''.''))"

definition PathUtils_extractMediaFromPath :: "string \<Rightarrow> string \<Rightarrow> string" where
  "PathUtils_extractMediaFromPath marker resourcePath =
     (let trimmedResourcePath = trim resourcePath
      in substring1 trimmedResourcePath (indexOf trimmedResourcePath marker))"

section \<open>ManifestGenerator\<close>

subsection \<open>Data\<close>

text \<open>
  The value of \<open>manifestMap\<close> at a page: its own \<open>path\<close> and the six lists, after
  \<open>JSON.parse\<close> (an absent list is \<open>[]\<close>). Every list is taken to parse, to a list
  of strings.
\<close>

record pageData =
  path :: string
  scripts :: "string list"
  styles :: "string list"
  assets :: "string list"
  inlineImages :: "string list"
  dependencies :: "string list"
  fragments :: "string list"

record entry =
  path :: string
  timestamp :: "jsnum option"
  hash :: "string option"

record provider =
  name :: string
  endpoint :: string

record contentDelivery =
  providers :: "provider list"
  defaultProvider :: string

record manifest =
  version :: string
  timestamp :: jsnum
  entries :: "entry list"
  contentDelivery :: contentDelivery

subsection \<open>The helpers\<close>

definition trimImagesPath :: "string \<Rightarrow> string" where
  "trimImagesPath item =
     (let trimmedItem = trim item;
          isRelative = (case trimmedItem of [] \<Rightarrow> False | c # _ \<Rightarrow> c = CHR ''.'');
          noDot = (if isRelative then substring1 trimmedItem 1 else trimmedItem);
          noQuery = takeWhile (\<lambda>c. c \<noteq> CHR ''?'') noDot
      in noQuery)"

definition ManifestGenerator_isMedia :: "string \<Rightarrow> string \<Rightarrow> bool" where
  "ManifestGenerator_isMedia marker p = includes_str (trim p) marker"

definition ManifestGenerator_getHashFromMedia :: "string \<Rightarrow> string \<Rightarrow> string" where
  "ManifestGenerator_getHashFromMedia marker p =
     (let path1 = trim p
      in substring2 path1 (int (length marker)) (indexOf path1 ''.''))"

text \<open>The index is the one of the marker in the string as given, not in the trimmed one.\<close>

definition ManifestGenerator_extractMediaFromPath :: "string \<Rightarrow> string \<Rightarrow> string" where
  "ManifestGenerator_extractMediaFromPath marker p = substring1 (trim p) (indexOf p marker)"

text \<open>\<open>resp && resp.headers.get('last-modified')\<close>, where \<open>resp\<close> may be undefined.\<close>

definition lastModifiedHeader :: "string option option \<Rightarrow> string option" where
  "lastModifiedHeader resp = (case resp of None \<Rightarrow> None | Some headers \<Rightarrow> headers)"

subsection \<open>The page entry\<close>

definition getPageJsonEntry ::
  "env \<Rightarrow> string \<Rightarrow> string \<Rightarrow> bool \<Rightarrow> nat \<Rightarrow> error + entry \<times> nat" where
  "getPageJsonEntry E host pagePath isHtmlUpdated clock =
     (let entryPath = pagePath @ ''.html''
      in case fetchDataWithMethod E host entryPath ''HEAD'' of
           Unavailable \<Rightarrow> Inl FetchError
         | Response headers \<Rightarrow>
             (let e = \<lparr>entry.path = entryPath, timestamp = None, hash = None\<rparr>;
                  date = lastModifiedHeader (Some headers)
              in if isHtmlUpdated
                 then Inr (e\<lparr>entry.timestamp := Some (Num (now E clock))\<rparr>, Suc clock)
                 else (case date of
                         None \<Rightarrow> Inr (e, clock)
                       | Some d \<Rightarrow>
                           if d = [] then Inr (e, clock)
                           else Inr (e\<lparr>entry.timestamp := Some (parseDate E d)\<rparr>, clock))))"

subsection \<open>The resource entries\<close>

text \<open>
  The body of the loop of \<open>createEntries\<close> after the probe: the entry of one
  resource and the new \<open>lastModified\<close>.
\<close>

definition resourceEntry ::
  "env \<Rightarrow> string \<Rightarrow> string \<Rightarrow> string option option \<Rightarrow> jsnum \<Rightarrow> entry \<times> jsnum" where
  "resourceEntry E parentPath resource resp lastModified =
     (let resourceSubPath = trim resource;
          date = lastModifiedHeader resp
      in if ManifestGenerator_isMedia (MEDIA_PREFIX E) resourceSubPath
         then (\<lparr>entry.path = parentPath @ resource, timestamp = None,
                 hash = Some (ManifestGenerator_getHashFromMedia (MEDIA_PREFIX E) resourceSubPath)\<rparr>,
               lastModified)
         else (case date of
                 None \<Rightarrow> (\<lparr>entry.path = resource, timestamp = None, hash = None\<rparr>, lastModified)
               | Some d \<Rightarrow>
                   if d = []
                   then (\<lparr>entry.path = resource, timestamp = None, hash = None\<rparr>, lastModified)
                   else (let ts = parseDate E d
                         in (\<lparr>entry.path = resource, timestamp = Some ts, hash = None\<rparr>,
                             if js_gt ts lastModified then ts else lastModified))))"

text \<open>
  The loop over \<open>resourcesArr\<close>. A resource whose probe throws and which is not dirty
  is passed over (the \<open>continue\<close>); one whose probe throws and which is dirty gets its
  entry from an undefined response.
\<close>

fun resourcesLoop ::
  "env \<Rightarrow> string \<Rightarrow> string \<Rightarrow> string list \<Rightarrow> entry list \<Rightarrow> jsnum \<Rightarrow> entry list \<times> jsnum" where
  "resourcesLoop E host parentPath [] entriesJson lastModified = (entriesJson, lastModified)"
| "resourcesLoop E host parentPath (r # rs) entriesJson lastModified =
     (let resourceSubPath = trim r
      in case fetchDataWithMethod E host resourceSubPath ''HEAD'' of
           Unavailable \<Rightarrow>
             if \<not> isFileDirty E (drop 1 resourceSubPath)
             then resourcesLoop E host parentPath rs entriesJson lastModified
             else (case resourceEntry E parentPath r None lastModified of
                     (e, lm) \<Rightarrow> resourcesLoop E host parentPath rs (entriesJson @ [e]) lm)
         | Response headers \<Rightarrow>
             (case resourceEntry E parentPath r (Some headers) lastModified of
                (e, lm) \<Rightarrow> resourcesLoop E host parentPath rs (entriesJson @ [e]) lm))"

text \<open>
  \<open>pageResources\<close> is the list of the set's elements in iteration order. The result is
  the list of entries, \<open>lastModified\<close> and the clock count; \<open>Inl\<close> is a rejection.
\<close>

definition createEntries ::
  "env \<Rightarrow> string \<Rightarrow> string \<Rightarrow> string list \<Rightarrow> bool \<Rightarrow> nat
     \<Rightarrow> error + (entry list \<times> jsnum) \<times> nat" where
  "createEntries E host pagePath pageResources isHtmlUpdated clock =
     (let parentPath = getParentFromPath pagePath
      in case getPageJsonEntry E host pagePath isHtmlUpdated clock of
           Inl err \<Rightarrow> Inl err
         | Inr (pageEntryJson, clock') \<Rightarrow>
             (let lastModified =
                    (case entry.timestamp pageEntryJson of
                       None \<Rightarrow> Num 0
                     | Some t \<Rightarrow>
                         if truthy_num (Some t) \<and> js_gt t (Num 0) then t else Num 0)
              in Inr (resourcesLoop E host parentPath pageResources [pageEntryJson]
                        lastModified, clock')))"

subsection \<open>The manifest\<close>

text \<open>\<open>new Set(xs)\<close> in iteration order: the first occurrence of each element.\<close>

definition newSet :: "string list \<Rightarrow> string list" where
  "newSet xs = foldl (\<lambda>s x. if x \<in> set s then s else s @ [x]) [] xs"

text \<open>
  \<open>allEntries\<close> is a \<open>Map\<close> from paths to entries, and every entry is stored under
  its own path: the model is the list of its values in iteration order.
  \<open>allEntries.set(e.path, e)\<close> replaces the value of a key in place and appends a
  new key.
\<close>

fun mapSet :: "entry list \<Rightarrow> entry \<Rightarrow> entry list" where
  "mapSet [] e = [e]"
| "mapSet (x # xs) e = (if entry.path x = entry.path e then e # xs else x # mapSet xs e)"

text \<open>What the loop over \<open>newEntries\<close> does to one entry of a fragment before storing it.\<close>

definition rebase :: "string \<Rightarrow> string \<Rightarrow> entry \<Rightarrow> entry" where
  "rebase marker pagePath e =
     (if ManifestGenerator_isMedia marker (entry.path e)
      then e\<lparr>entry.path :=
               getParentFromPath pagePath
                 @ ManifestGenerator_extractMediaFromPath marker (entry.path e)\<rparr>
      else e)"

definition mergeEntries :: "string \<Rightarrow> string \<Rightarrow> entry list \<Rightarrow> entry list \<Rightarrow> entry list" where
  "mergeEntries marker pagePath allEntries newEntries =
     foldl (\<lambda>m e. mapSet m (rebase marker pagePath e)) allEntries newEntries"

text \<open>
  The loop over \<open>fragmentsList\<close>; \<open>call f clock\<close> is the recursive call of
  \<open>createManifest\<close> on the fragment \<open>f\<close>. \<open>None\<close> is a recursion that does not return.
\<close>

fun fragmentsLoop ::
  "(string \<Rightarrow> nat \<Rightarrow> (error + (manifest \<times> jsnum) \<times> nat) option) \<Rightarrow> string \<Rightarrow> string
     \<Rightarrow> string list \<Rightarrow> entry list \<Rightarrow> jsnum \<Rightarrow> nat
     \<Rightarrow> (error + (entry list \<times> jsnum) \<times> nat) option" where
  "fragmentsLoop call marker pagePath [] allEntries fragmentsLastModified clock =
     Some (Inr ((allEntries, fragmentsLastModified), clock))"
| "fragmentsLoop call marker pagePath (f # fs) allEntries fragmentsLastModified clock =
     (case call f clock of
        None \<Rightarrow> None
      | Some (Inl err) \<Rightarrow> Some (Inl err)
      | Some (Inr ((m, fragmentLastModified), clock')) \<Rightarrow>
          fragmentsLoop call marker pagePath fs
            (mergeEntries marker pagePath allEntries (entries m))
            (js_max fragmentsLastModified fragmentLastModified) clock')"

text \<open>
  \<open>createManifest\<close>. The first argument bounds the depth of the recursion through
  fragments: where the source recurses deeper than that (on a cycle of fragments it
  recurses for ever) the result is \<open>None\<close>. A page absent from \<open>manifestMap\<close> makes
  the destructuring of \<open>data\<close> throw. A flag absent from \<open>isHtmlUpdatedMap\<close> is
  undefined, which is falsy.
\<close>

fun createManifest ::
  "nat \<Rightarrow> env \<Rightarrow> string \<Rightarrow> (string \<rightharpoonup> pageData) \<Rightarrow> string \<Rightarrow> (string \<rightharpoonup> bool)
     \<Rightarrow> string list \<Rightarrow> nat \<Rightarrow> (error + (manifest \<times> jsnum) \<times> nat) option" where
  "createManifest 0 E host manifestMap pagePath isHtmlUpdatedMap additionalAssets clock = None"
| "createManifest (Suc depth) E host manifestMap pagePath isHtmlUpdatedMap additionalAssets clock =
     (case manifestMap pagePath of
        None \<Rightarrow> Some (Inl TypeError)
      | Some data \<Rightarrow>
          (let pageResources =
                 newSet (scripts data @ styles data @ map trimImagesPath (assets data)
                           @ map trimImagesPath (inlineImages data) @ dependencies data
                           @ additionalAssets)
           in case createEntries E host (pageData.path data) pageResources
                     (isHtmlUpdatedMap (pageData.path data) = Some True) clock of
                Inl err \<Rightarrow> Some (Inl err)
              | Inr ((entries0, lastModified), clock1) \<Rightarrow>
                  (case fragmentsLoop
                          (\<lambda>fragmentPath c.
                             createManifest depth E host manifestMap fragmentPath
                               isHtmlUpdatedMap [fragmentPath @ ''.plain.html''] c)
                          (MEDIA_PREFIX E) pagePath (fragments data)
                          (foldl mapSet [] entries0) (Num 0) clock1 of
                     None \<Rightarrow> None
                   | Some (Inl err) \<Rightarrow> Some (Inl err)
                   | Some (Inr ((allEntries, fragmentsLastModified), clock2)) \<Rightarrow>
                       Some (Inr ((\<lparr>version = ''3.0'',
                                    timestamp = js_max lastModified fragmentsLastModified,
                                    entries = allEntries,
                                    contentDelivery =
                                      \<lparr>providers = [\<lparr>name = ''franklin'', endpoint = ''/''\<rparr>],
                                       defaultProvider = ''franklin''\<rparr>\<rparr>,
                                   js_max lastModified fragmentsLastModified), clock2)))))"

section \<open>The specification's functions\<close>

text \<open>
  The specification's \<open>mediaHash\<close>, from its words: the substring between the
  media-prefix marker and the first \<open>.\<close> after it.
\<close>

definition mediaHash_spec :: "string \<Rightarrow> string \<Rightarrow> string" where
  "mediaHash_spec marker p =
     (let t = trim p;
          after = drop (nat (indexOf t marker) + length marker) t
      in takeWhile (\<lambda>c. c \<noteq> CHR ''.'') after)"

text \<open>
  The entries that one call of \<open>createManifest\<close> stores in \<open>allEntries\<close>, in the
  order in which it stores them: the entries of \<open>createEntries\<close> (the page entry, then
  the resources), then for each fragment in turn the entries of its manifest, rebased.
\<close>

fun fragmentEntries ::
  "(string \<Rightarrow> nat \<Rightarrow> (error + (manifest \<times> jsnum) \<times> nat) option) \<Rightarrow> string \<Rightarrow> string
     \<Rightarrow> string list \<Rightarrow> nat \<Rightarrow> entry list" where
  "fragmentEntries call marker pagePath [] clock = []"
| "fragmentEntries call marker pagePath (f # fs) clock =
     (case call f clock of
        Some (Inr ((m, t), clock')) \<Rightarrow>
          map (rebase marker pagePath) (entries m) @ fragmentEntries call marker pagePath fs clock'
      | _ \<Rightarrow> [])"

fun processedEntries ::
  "nat \<Rightarrow> env \<Rightarrow> string \<Rightarrow> (string \<rightharpoonup> pageData) \<Rightarrow> string \<Rightarrow> (string \<rightharpoonup> bool)
     \<Rightarrow> string list \<Rightarrow> nat \<Rightarrow> entry list" where
  "processedEntries 0 E host manifestMap pagePath isHtmlUpdatedMap additionalAssets clock = []"
| "processedEntries (Suc depth) E host manifestMap pagePath isHtmlUpdatedMap additionalAssets clock =
     (case manifestMap pagePath of
        None \<Rightarrow> []
      | Some data \<Rightarrow>
          (case createEntries E host (pageData.path data)
                  (newSet (scripts data @ styles data @ map trimImagesPath (assets data)
                             @ map trimImagesPath (inlineImages data) @ dependencies data
                             @ additionalAssets))
                  (isHtmlUpdatedMap (pageData.path data) = Some True) clock of
             Inl err \<Rightarrow> []
           | Inr ((entries0, lastModified), clock1) \<Rightarrow>
               entries0 @
               fragmentEntries
                 (\<lambda>fragmentPath c.
                    createManifest depth E host manifestMap fragmentPath isHtmlUpdatedMap
                      [fragmentPath @ ''.plain.html''] c)
                 (MEDIA_PREFIX E) pagePath (fragments data) clock1))"

text \<open>
  Every entry that a call of \<open>createManifest\<close> and the calls under it build, whether
  or not it is still in a manifest at the end: the entries of \<open>createEntries\<close>, then
  those built for each fragment in turn.
\<close>

fun fragmentsBuilt ::
  "(string \<Rightarrow> nat \<Rightarrow> entry list)
     \<Rightarrow> (string \<Rightarrow> nat \<Rightarrow> (error + (manifest \<times> jsnum) \<times> nat) option)
     \<Rightarrow> string list \<Rightarrow> nat \<Rightarrow> entry list" where
  "fragmentsBuilt built call [] clock = []"
| "fragmentsBuilt built call (f # fs) clock =
     (case call f clock of
        Some (Inr (r, clock')) \<Rightarrow> built f clock @ fragmentsBuilt built call fs clock'
      | _ \<Rightarrow> [])"

fun builtEntries ::
  "nat \<Rightarrow> env \<Rightarrow> string \<Rightarrow> (string \<rightharpoonup> pageData) \<Rightarrow> string \<Rightarrow> (string \<rightharpoonup> bool)
     \<Rightarrow> string list \<Rightarrow> nat \<Rightarrow> entry list" where
  "builtEntries 0 E host manifestMap pagePath isHtmlUpdatedMap additionalAssets clock = []"
| "builtEntries (Suc depth) E host manifestMap pagePath isHtmlUpdatedMap additionalAssets clock =
     (case manifestMap pagePath of
        None \<Rightarrow> []
      | Some data \<Rightarrow>
          (case createEntries E host (pageData.path data)
                  (newSet (scripts data @ styles data @ map trimImagesPath (assets data)
                             @ map trimImagesPath (inlineImages data) @ dependencies data
                             @ additionalAssets))
                  (isHtmlUpdatedMap (pageData.path data) = Some True) clock of
             Inl err \<Rightarrow> []
           | Inr ((entries0, lastModified), clock1) \<Rightarrow>
               entries0 @
               fragmentsBuilt
                 (\<lambda>fragmentPath c.
                    builtEntries depth E host manifestMap fragmentPath isHtmlUpdatedMap
                      [fragmentPath @ ''.plain.html''] c)
                 (\<lambda>fragmentPath c.
                    createManifest depth E host manifestMap fragmentPath isHtmlUpdatedMap
                      [fragmentPath @ ''.plain.html''] c)
                 (fragments data) clock1))"

text \<open>The timestamps of a list of entries that are numbers: absent ones and \<open>NaN\<close> are left out.\<close>

fun knownTimes :: "entry list \<Rightarrow> int list" where
  "knownTimes [] = []"
| "knownTimes (e # es) =
     (case entry.timestamp e of Some (Num n) \<Rightarrow> n # knownTimes es | _ \<Rightarrow> knownTimes es)"

text \<open>
  The path of an entry after the manifests of the including pages have rebased it:
  \<open>rebasedFrom marker p p'\<close> when \<open>p'\<close> is \<open>p\<close>, or comes from \<open>p\<close> by rebasing
  it, as long as it is a media path, to the parents of some pages in turn.
\<close>

inductive rebasedFrom :: "string \<Rightarrow> string \<Rightarrow> string \<Rightarrow> bool" for marker :: string and p :: string where
  asBuilt: "rebasedFrom marker p p"
| rebased: "rebasedFrom marker p p' \<Longrightarrow> ManifestGenerator_isMedia marker p' \<Longrightarrow>
     rebasedFrom marker p
       (getParentFromPath pagePath @ ManifestGenerator_extractMediaFromPath marker p')"



section \<open>Example inputs\<close>

text \<open>
  A host on which \<open>/gone.html\<close> and \<open>/gone.js\<close> are missing, three resources carry a
  \<open>last-modified\<close> header and every other path has none; nothing is dirty. The clock
  starts on 3 January 2024 and advances by a millisecond with every reading.
\<close>

definition exampleEnv :: env where
  "exampleEnv =
     \<lparr>MEDIA_PREFIX = ''/media_'',
      fetchDataWithMethod = (\<lambda>host p method.
         if p = ''/gone.html'' \<or> p = ''/gone.js'' then Unavailable
         else if p = ''/site/page.html'' then Response (Some ''Mon, 01 Jan 2024 00:00:00 GMT'')
         else if p = ''/scripts/lib.js'' then Response (Some ''Tue, 02 Jan 2024 00:00:00 GMT'')
         else if p = ''/old/page.html'' then Response (Some ''Wed, 31 Dec 1969 23:59:59 GMT'')
         else if p = ''/media_wall/page.html'' then Response (Some ''Mon, 01 Jan 2024 00:00:00 GMT'')
         else Response None),
      isFileDirty = (\<lambda>p. False),
      parseDate = (\<lambda>s.
         if s = ''Mon, 01 Jan 2024 00:00:00 GMT'' then Num 1704067200000
         else if s = ''Tue, 02 Jan 2024 00:00:00 GMT'' then Num 1704153600000
         else if s = ''Wed, 31 Dec 1969 23:59:59 GMT'' then Num (- 1000)
         else NaN),
      now = (\<lambda>k. 1704240000000 + int k)\<rparr>"

definition page :: "string \<Rightarrow> pageData" where
  "page p = \<lparr>pageData.path = p, scripts = [], styles = [], assets = [], inlineImages = [],
              dependencies = [], fragments = []\<rparr>"

text \<open>
  The page \<open>/site/page\<close> with a missing script, a shared script, a media asset and two
  fragments that use the shared script too.
\<close>

definition siteMap :: "string \<rightharpoonup> pageData" where
  "siteMap =
     [''/site/page'' \<mapsto> (page ''/site/page'')
        \<lparr>scripts := [''/gone.js'', ''/scripts/lib.js''],
         assets := [''./media_1234.png?x=1''],
         fragments := [''/frags/nav'', ''/frags/footer'']\<rparr>,
      ''/frags/nav'' \<mapsto> (page ''/frags/nav'')
        \<lparr>scripts := [''/scripts/lib.js''], assets := [''./media_77.png'']\<rparr>,
      ''/frags/footer'' \<mapsto> (page ''/frags/footer'')\<lparr>scripts := [''/scripts/lib.js'']\<rparr>]"

text \<open>
  The page \<open>/a/b/page\<close> with the fragment \<open>/frag\<close>, whose script list names a media
  file with a space before it.
\<close>

definition spacedMap :: "string \<rightharpoonup> pageData" where
  "spacedMap =
     [''/a/b/page'' \<mapsto> (page ''/a/b/page'')\<lparr>fragments := [''/frag'']\<rparr>,
      ''/frag'' \<mapsto> (page ''/frag'')\<lparr>scripts := ['' /media_1234.png'']\<rparr>]"

text \<open>Pages without resources: one last modified before 1970, one under a media folder.\<close>

definition plainMap :: "string \<rightharpoonup> pageData" where
  "plainMap =
     [''/old/page'' \<mapsto> page ''/old/page'',
      ''/media_wall/page'' \<mapsto> page ''/media_wall/page'',
      ''/gone'' \<mapsto> page ''/gone'']"

text \<open>The page \<open>/site/gallery\<close>, whose script is a media file in another folder.\<close>

definition galleryMap :: "string \<rightharpoonup> pageData" where
  "galleryMap =
     [''/site/gallery'' \<mapsto> (page ''/site/gallery'')\<lparr>scripts := [''/content/media_1234.png'']\<rparr>]"

text \<open>The manifest of \<open>/site/page\<close> when no page was just updated.\<close>

definition siteManifest :: manifest where
  "siteManifest =
     \<lparr>version = ''3.0'', timestamp = Num 1704153600000,
      entries =
        [\<lparr>entry.path = ''/site/page.html'', timestamp = Some (Num 1704067200000), hash = None\<rparr>,
         \<lparr>entry.path = ''/scripts/lib.js'', timestamp = Some (Num 1704153600000), hash = None\<rparr>,
         \<lparr>entry.path = ''/site/media_1234.png'', timestamp = None, hash = Some ''1234''\<rparr>,
         \<lparr>entry.path = ''/frags/nav.html'', timestamp = None, hash = None\<rparr>,
         \<lparr>entry.path = ''/site/media_77.png'', timestamp = None, hash = Some ''77''\<rparr>,
         \<lparr>entry.path = ''/frags/nav.plain.html'', timestamp = None, hash = None\<rparr>,
         \<lparr>entry.path = ''/frags/footer.html'', timestamp = None, hash = None\<rparr>,
         \<lparr>entry.path = ''/frags/footer.plain.html'', timestamp = None, hash = None\<rparr>],
      contentDelivery =
        \<lparr>providers = [\<lparr>name = ''franklin'', endpoint = ''/''\<rparr>],
         defaultProvider = ''franklin''\<rparr>\<rparr>"

text \<open>The manifest of \<open>/a/b/page\<close>.\<close>

definition spacedManifest :: manifest where
  "spacedManifest =
     \<lparr>version = ''3.0'', timestamp = Num 0,
      entries =
        [\<lparr>entry.path = ''/a/b/page.html'', timestamp = None, hash = None\<rparr>,
         \<lparr>entry.path = ''/frag.html'', timestamp = None, hash = None\<rparr>,
         \<lparr>entry.path = ''/a/bmedia_1234.png'', timestamp = None, hash = Some ''1234''\<rparr>,
         \<lparr>entry.path = ''/frag.plain.html'', timestamp = None, hash = None\<rparr>],
      contentDelivery =
        \<lparr>providers = [\<lparr>name = ''franklin'', endpoint = ''/''\<rparr>],
         defaultProvider = ''franklin''\<rparr>\<rparr>"


section \<open>Strings\<close>

lemma indexOfFrom_absent:
  "(\<And>i. i \<le> length s \<Longrightarrow> \<not> prefix t (drop i s)) \<Longrightarrow> indexOfFrom s t k = - 1"
proof (induction s arbitrary: k)
  case Nil
  then show ?case by (auto simp: prefix_def)
next
  case (Cons c cs)
  have "\<not> prefix t (c # cs)" using Cons.prems[of 0] by simp
  moreover have "indexOfFrom cs t (Suc k) = - 1"
  proof (rule Cons.IH)
    fix i assume "i \<le> length cs"
    then show "\<not> prefix t (drop i cs)" using Cons.prems[of "Suc i"] by simp
  qed
  ultimately show ?case by simp
qed

lemma indexOfFrom_first:
  "i \<le> length s \<Longrightarrow> prefix t (drop i s) \<Longrightarrow> (\<And>j. j < i \<Longrightarrow> \<not> prefix t (drop j s))
     \<Longrightarrow> indexOfFrom s t k = int (k + i)"
proof (induction s arbitrary: k i)
  case Nil
  then show ?case by simp
next
  case (Cons c cs)
  show ?case
  proof (cases i)
    case 0
    then show ?thesis using Cons.prems by simp
  next
    case (Suc i')
    have n0: "\<not> prefix t (c # cs)" using Cons.prems(3)[of 0] Suc by simp
    have "indexOfFrom cs t (Suc k) = int (Suc k + i')"
    proof (rule Cons.IH)
      show "i' \<le> length cs" using Cons.prems(1) Suc by simp
      show "prefix t (drop i' cs)" using Cons.prems(2) Suc by simp
      fix j assume "j < i'"
      then show "\<not> prefix t (drop j cs)" using Cons.prems(3)[of "Suc j"] Suc by simp
    qed
    then show ?thesis using n0 Suc by simp
  qed
qed

lemma indexOf_prefix: "prefix t s \<Longrightarrow> indexOf s t = 0"
  using indexOfFrom_first[of 0 s t 0] by (simp add: indexOf_def)

lemma indexOf_char_first:
  "c \<notin> set a \<Longrightarrow> indexOf (a @ c # b) [c] = int (length a)"
proof -
  assume c: "c \<notin> set a"
  have "indexOfFrom (a @ c # b) [c] 0 = int (0 + length a)"
  proof (rule indexOfFrom_first)
    show "length a \<le> length (a @ c # b)" by simp
    show "prefix [c] (drop (length a) (a @ c # b))" by simp
    fix j assume j: "j < length a"
    then have "drop j (a @ c # b) = (a ! j) # drop (Suc j) a @ c # b"
      by (simp add: Cons_nth_drop_Suc)
    moreover have "a ! j \<noteq> c" using c j by auto
    ultimately show "\<not> prefix [c] (drop j (a @ c # b))" by simp
  qed
  then show ?thesis by (simp add: indexOf_def)
qed

lemma getHashFromMedia_same:
  "ManifestGenerator_getHashFromMedia marker p = PathUtils_getHashFromMedia marker p"
  by (simp add: ManifestGenerator_getHashFromMedia_def PathUtils_getHashFromMedia_def)

lemma getHashFromMedia_decomposed:
  assumes t: "trim p = marker @ h @ CHR ''.'' # rest"
    and m: "CHR ''.'' \<notin> set marker" and h: "CHR ''.'' \<notin> set h"
  shows "PathUtils_getHashFromMedia marker p = h"
proof -
  have "indexOf (trim p) ''.'' = int (length (marker @ h))"
    using indexOf_char_first[of "CHR ''.''" "marker @ h" rest] m h t by simp
  then show ?thesis
    by (simp add: PathUtils_getHashFromMedia_def substring2_def clampIndex_def t)
qed

lemma indexOfFrom_cases:
  "(indexOfFrom s t k = - 1 \<and> (\<forall>i\<le>length s. \<not> prefix t (drop i s)))
   \<or> (\<exists>i\<le>length s. indexOfFrom s t k = int (k + i) \<and> prefix t (drop i s)
          \<and> (\<forall>j<i. \<not> prefix t (drop j s)))"
proof (cases "\<exists>i\<le>length s. prefix t (drop i s)")
  case False
  then have none: "\<forall>i\<le>length s. \<not> prefix t (drop i s)" by simp
  then have "indexOfFrom s t k = - 1" by (intro indexOfFrom_absent) simp
  then have "indexOfFrom s t k = - 1 \<and> (\<forall>i\<le>length s. \<not> prefix t (drop i s))"
    using none by (rule conjI)
  then show ?thesis by (rule disjI1)
next
  case True
  then obtain i0 where i0: "i0 \<le> length s \<and> prefix t (drop i0 s)" by blast
  let ?P = "\<lambda>i. i \<le> length s \<and> prefix t (drop i s)"
  have i: "?P (Least ?P)" using i0 by (rule LeastI)
  have least: "\<And>j. j < Least ?P \<Longrightarrow> \<not> prefix t (drop j s)"
  proof
    fix j assume j: "j < Least ?P" and pj: "prefix t (drop j s)"
    then have "?P j" using i by simp
    then have "Least ?P \<le> j" by (rule Least_le)
    then show False using j by simp
  qed
  have "indexOfFrom s t k = int (k + Least ?P)"
    by (rule indexOfFrom_first) (use i least in simp_all)
  then have "Least ?P \<le> length s \<and> indexOfFrom s t k = int (k + Least ?P) \<and> prefix t (drop (Least ?P) s)
      \<and> (\<forall>j<Least ?P. \<not> prefix t (drop j s))"
    using i least by simp
  then show ?thesis by (intro disjI2 exI[of _ "Least ?P"])
qed

lemma indexOf_cases:
  "(indexOf s t = - 1 \<and> (\<forall>i\<le>length s. \<not> prefix t (drop i s)))
   \<or> (\<exists>i\<le>length s. indexOf s t = int i \<and> prefix t (drop i s)
          \<and> (\<forall>j<i. \<not> prefix t (drop j s)))"
  using indexOfFrom_cases[of s t 0] by (simp add: indexOf_def)

lemma indexOf_same_occurrences:
  assumes "\<And>i. (i \<le> length s \<and> prefix t (drop i s)) = (i \<le> length s' \<and> prefix t (drop i s'))"
  shows "indexOf s t = indexOf s' t"
proof -
  consider (absent) "indexOf s t = - 1" "\<forall>i\<le>length s. \<not> prefix t (drop i s)"
    | (found) i where "i \<le> length s" "indexOf s t = int i" "prefix t (drop i s)"
        "\<forall>j<i. \<not> prefix t (drop j s)"
    using indexOf_cases[of s t] by blast
  then show ?thesis
  proof cases
    case absent
    have "\<And>i. i \<le> length s' \<Longrightarrow> \<not> prefix t (drop i s')"
      using absent(2) assms by blast
    then have "indexOfFrom s' t 0 = - 1" by (rule indexOfFrom_absent)
    then show ?thesis using absent(1) by (simp add: indexOf_def)
  next
    case found
    have a: "i \<le> length s'" and b: "prefix t (drop i s')"
      using found(1,3) assms[of i] by auto
    have c: "\<And>j. j < i \<Longrightarrow> \<not> prefix t (drop j s')"
    proof
      fix j assume j: "j < i" and pj: "prefix t (drop j s')"
      have "j \<le> length s'" using j a by simp
      then have "prefix t (drop j s)" using pj assms[of j] by simp
      then show False using found(4) j by simp
    qed
    have "indexOfFrom s' t 0 = int (0 + i)" using a b c by (rule indexOfFrom_first)
    then show ?thesis using found(2) by (simp add: indexOf_def)
  qed
qed

lemma trim_split:
  assumes "dropWhile isWhiteSpace p = p"
  shows "\<exists>w. p = trim p @ w \<and> (\<forall>c\<in>set w. isWhiteSpace c)
           \<and> (trim p = [] \<or> \<not> isWhiteSpace (last (trim p)))"
proof -
  let ?w = "rev (takeWhile isWhiteSpace (rev p))"
  have t: "trim p = rev (dropWhile isWhiteSpace (rev p))" using assms by (simp add: trim_def)
  have "rev (takeWhile isWhiteSpace (rev p) @ dropWhile isWhiteSpace (rev p)) = rev (rev p)"
    by (simp only: takeWhile_dropWhile_id)
  then have "rev (dropWhile isWhiteSpace (rev p)) @ ?w = p"
    by (simp only: rev_append rev_rev_ident)
  then have 1: "p = trim p @ ?w" using t by simp
  have 2: "\<forall>c\<in>set ?w. isWhiteSpace c" by (auto dest: set_takeWhileD)
  have 3: "trim p = [] \<or> \<not> isWhiteSpace (last (trim p))"
  proof (cases "dropWhile isWhiteSpace (rev p)")
    case Nil
    then show ?thesis using t by simp
  next
    case (Cons c cs)
    then have "\<not> isWhiteSpace c" using hd_dropWhile[of isWhiteSpace "rev p"] by auto
    then show ?thesis using t Cons by simp
  qed
  show ?thesis using 1 2 3 by blast
qed

lemma occurrence_before_white:
  assumes w: "\<forall>c\<in>set w. isWhiteSpace c"
    and t: "t = [] \<or> \<not> isWhiteSpace (last t)"
    and m: "m \<noteq> []" "\<not> isWhiteSpace (last m)"
  shows "(i \<le> length (t @ w) \<and> prefix m (drop i (t @ w))) = (i \<le> length t \<and> prefix m (drop i t))"
proof
  assume r: "i \<le> length t \<and> prefix m (drop i t)"
  then have "prefix m (drop i t @ w)" by (simp add: prefix_prefix)
  then show "i \<le> length (t @ w) \<and> prefix m (drop i (t @ w))" using r by simp
next
  assume l: "i \<le> length (t @ w) \<and> prefix m (drop i (t @ w))"
  have lastm: "last m \<in> set m" using m(1) by simp
  have notw: "\<not> set m \<subseteq> set w" using lastm m(2) w by auto
  show "i \<le> length t \<and> prefix m (drop i t)"
  proof (cases "i \<le> length t")
    case False
    then have "drop i (t @ w) = drop (i - length t) w" by simp
    then have "prefix m (drop (i - length t) w)" using l by simp
    then have "set m \<subseteq> set (drop (i - length t) w)" by (rule set_mono_prefix)
    then have "set m \<subseteq> set w" using set_drop_subset[of "i - length t" w] by simp
    then show ?thesis using notw by simp
  next
    case True
    then have p: "prefix m (drop i t @ w)" using l by simp
    then obtain us where us: "prefix m (drop i t) \<or> (m = drop i t @ us \<and> prefix us w)"
      by (auto simp: prefix_append)
    then consider "prefix m (drop i t)" | "m = drop i t @ us" "us \<noteq> []" "prefix us w"
      by (cases "us = []") auto
    then show ?thesis
    proof cases
      case 1
      then show ?thesis using True by simp
    next
      case 2
      then have "last m = last us" by simp
      moreover have "last us \<in> set us" using 2(2) by simp
      moreover have "set us \<subseteq> set w" using 2(3) by (rule set_mono_prefix)
      ultimately show ?thesis using m(2) w by auto
    qed
  qed
qed

lemma indexOf_Nil: "indexOf s [] = 0"
  by (rule indexOf_prefix) simp

lemma indexOf_trim:
  assumes p: "dropWhile isWhiteSpace p = p"
    and m: "marker = [] \<or> \<not> isWhiteSpace (last marker)"
  shows "indexOf p marker = indexOf (trim p) marker"
proof (cases "marker = []")
  case True
  then show ?thesis by (simp add: indexOf_Nil)
next
  case False
  obtain w where w: "p = trim p @ w" "\<forall>c\<in>set w. isWhiteSpace c"
    "trim p = [] \<or> \<not> isWhiteSpace (last (trim p))"
    using trim_split[OF p] by blast
  have nw: "\<not> isWhiteSpace (last marker)" using m False by simp
  have "indexOf (trim p @ w) marker = indexOf (trim p) marker"
    by (rule indexOf_same_occurrences) (rule occurrence_before_white[OF w(2,3) False nw])
  then show ?thesis using w(1) by simp
qed

lemma substring1_found:
  assumes "includes_str s t"
  shows "\<exists>a. s = a @ substring1 s (indexOf s t) \<and> prefix t (substring1 s (indexOf s t))
           \<and> length a = nat (indexOf s t)
           \<and> (\<forall>j<length a. \<not> prefix t (drop j s))"
proof -
  obtain i where i: "i \<le> length s" "indexOf s t = int i" "prefix t (drop i s)"
      "\<forall>j<i. \<not> prefix t (drop j s)"
    using indexOf_cases[of s t] assms by (auto simp: includes_str_def)
  have "substring1 s (indexOf s t) = drop i s" using i(1,2) by (simp add: substring1_def clampIndex_def)
  moreover have "s = take i s @ drop i s" by simp
  moreover have "length (take i s) = i" using i(1) by simp
  ultimately show ?thesis using i by (metis nat_int)
qed

lemma substring1_absent: "\<not> includes_str s t \<Longrightarrow> substring1 s (indexOf s t) = s"
  using indexOf_cases[of s t] by (auto simp: includes_str_def substring1_def clampIndex_def)



section \<open>Evaluation\<close>

text \<open>The definitions that the simplifier unfolds to run the model on an example.\<close>

lemmas string_defs = trim_def isWhiteSpace_def indexOf_def lastIndexOf_def includes_str_def
  clampIndex_def substring1_def substring2_def

lemmas path_defs = getParentFromPath_def trimImagesPath_def ManifestGenerator_isMedia_def
  ManifestGenerator_getHashFromMedia_def ManifestGenerator_extractMediaFromPath_def
  PathUtils_extractMediaFromPath_def lastModifiedHeader_def

lemmas manifest_defs = getPageJsonEntry_def resourceEntry_def createEntries_def newSet_def
  rebase_def mergeEntries_def Let_def

lemma siteManifest_returned:
  "createManifest 2 exampleEnv ''host'' siteMap ''/site/page'' Map.empty [] 0
     = Some (Inr ((siteManifest, Num 1704153600000), 0))"
  by (simp add: numeral_2_eq_2 manifest_defs path_defs string_defs exampleEnv_def siteMap_def
      page_def siteManifest_def)

lemma spacedManifest_returned:
  "createManifest 2 exampleEnv ''host'' spacedMap ''/a/b/page'' Map.empty [] 0
     = Some (Inr ((spacedManifest, Num 0), 0))"
  by (simp add: numeral_2_eq_2 manifest_defs path_defs string_defs exampleEnv_def spacedMap_def
      page_def spacedManifest_def)



section \<open>The merge of the entries\<close>

subsection \<open>mapSet\<close>

lemma mapSet_paths: "entry.path ` set (mapSet m e) = insert (entry.path e) (entry.path ` set m)"
  by (induction m) auto

lemma mapSet_distinct: "distinct (map entry.path m) \<Longrightarrow> distinct (map entry.path (mapSet m e))"
proof (induction m)
  case Nil
  then show ?case by simp
next
  case (Cons x m)
  have "entry.path x \<notin> entry.path ` set (mapSet m e)" if "entry.path x \<noteq> entry.path e"
    using that Cons.prems by (simp add: mapSet_paths)
  then show ?case using Cons by auto
qed

lemma mapSet_set:
  "distinct (map entry.path m) \<Longrightarrow>
     set (mapSet m e) = insert e {x \<in> set m. entry.path x \<noteq> entry.path e}"
proof (induction m)
  case Nil
  then show ?case by simp
next
  case (Cons x m)
  show ?case
  proof (cases "entry.path x = entry.path e")
    case True
    have "entry.path e \<notin> entry.path ` set m" using Cons.prems True by simp
    then have "\<And>y. y \<in> set m \<Longrightarrow> entry.path y \<noteq> entry.path e" by (metis imageI)
    then show ?thesis using True by auto
  next
    case False
    then show ?thesis using Cons by auto
  qed
qed



lemma foldl_mapSet_distinct:
  "distinct (map entry.path m) \<Longrightarrow> distinct (map entry.path (foldl mapSet m xs))"
  by (induction xs arbitrary: m) (simp_all add: mapSet_distinct)

lemma foldl_mapSet_paths:
  "entry.path ` set (foldl mapSet m xs) = entry.path ` set m \<union> entry.path ` set xs"
proof (induction xs arbitrary: m)
  case Nil
  then show ?case by simp
next
  case (Cons x xs)
  have "entry.path ` set (foldl mapSet (mapSet m x) xs)
      = entry.path ` set (mapSet m x) \<union> entry.path ` set xs" by (rule Cons.IH)
  then show ?case by (simp add: mapSet_paths)
qed

text \<open>The entries of a list that no later entry of the same path follows.\<close>

lemma foldl_mapSet_last:
  assumes "distinct (map entry.path m)" and "e \<in> set (foldl mapSet m xs)"
  shows "(e \<in> set m \<and> entry.path e \<notin> entry.path ` set xs)
         \<or> (\<exists>pre post. xs = pre @ e # post \<and> entry.path e \<notin> entry.path ` set post)"
  using assms
proof (induction xs arbitrary: m)
  case Nil
  then show ?case by simp
next
  case (Cons x xs)
  have d: "distinct (map entry.path (mapSet m x))" using Cons.prems(1) by (rule mapSet_distinct)
  have e: "e \<in> set (foldl mapSet (mapSet m x) xs)" using Cons.prems(2) by simp
  from Cons.IH[OF d e] show ?case
  proof
    assume a: "e \<in> set (mapSet m x) \<and> entry.path e \<notin> entry.path ` set xs"
    then have "e = x \<or> (e \<in> set m \<and> entry.path e \<noteq> entry.path x)"
      using mapSet_set[OF Cons.prems(1), of x] by auto
    then show ?thesis
    proof
      assume "e = x"
      then have "x # xs = [] @ e # xs \<and> entry.path e \<notin> entry.path ` set xs" using a by simp
      then show ?thesis by blast
    next
      assume "e \<in> set m \<and> entry.path e \<noteq> entry.path x"
      then show ?thesis using a by auto
    qed
  next
    assume "\<exists>pre post. xs = pre @ e # post \<and> entry.path e \<notin> entry.path ` set post"
    then obtain pre post where "xs = pre @ e # post" "entry.path e \<notin> entry.path ` set post"
      by blast
    then have "x # xs = (x # pre) @ e # post \<and> entry.path e \<notin> entry.path ` set post" by simp
    then show ?thesis by blast
  qed
qed

subsection \<open>The loop over the fragments\<close>

lemma mergeEntries_foldl:
  "mergeEntries marker pagePath m es = foldl mapSet m (map (rebase marker pagePath) es)"
  by (simp add: mergeEntries_def foldl_map)

lemma fragmentsLoop_entries:
  "fragmentsLoop call marker pagePath fs m flm c = Some (Inr ((m', flm'), c')) \<Longrightarrow>
     m' = foldl mapSet m (fragmentEntries call marker pagePath fs c)"
proof (induction fs arbitrary: m flm c)
  case Nil
  then show ?case by simp
next
  case (Cons f fs)
  from Cons.prems obtain mf tf cf where
    call: "call f c = Some (Inr ((mf, tf), cf))"
    and rest: "fragmentsLoop call marker pagePath fs (mergeEntries marker pagePath m (entries mf))
                 (js_max flm tf) cf = Some (Inr ((m', flm'), c'))"
    by (auto split: option.splits sum.splits)
  have "m' = foldl mapSet (mergeEntries marker pagePath m (entries mf))
               (fragmentEntries call marker pagePath fs cf)"
    using rest by (rule Cons.IH)
  then show ?case using call by (simp add: mergeEntries_foldl)
qed

lemma createManifest_entries:
  "createManifest d E host mm p upd extra c = Some (Inr ((m, ts), c')) \<Longrightarrow>
     entries m = foldl mapSet [] (processedEntries d E host mm p upd extra c)"
proof (cases d)
  case 0
  assume "createManifest d E host mm p upd extra c = Some (Inr ((m, ts), c'))"
  then show ?thesis using 0 by simp
next
  case (Suc d')
  assume ret: "createManifest d E host mm p upd extra c = Some (Inr ((m, ts), c'))"
  then obtain data es lm c1 all flm where
    data: "mm p = Some data"
    and ce: "createEntries E host (pageData.path data)
               (newSet (scripts data @ styles data @ map trimImagesPath (assets data)
                          @ map trimImagesPath (inlineImages data) @ dependencies data @ extra))
               (upd (pageData.path data) = Some True) c = Inr ((es, lm), c1)"
    and fl: "fragmentsLoop
               (\<lambda>fragmentPath c. createManifest d' E host mm fragmentPath upd
                                     [fragmentPath @ ''.plain.html''] c)
               (MEDIA_PREFIX E) p (fragments data) (foldl mapSet [] es) (Num 0) c1
             = Some (Inr ((all, flm), c'))"
    and m: "entries m = all"
    using Suc by (auto simp: Let_def split: option.splits sum.splits)
  have "all = foldl mapSet (foldl mapSet [] es)
                (fragmentEntries
                   (\<lambda>fragmentPath c. createManifest d' E host mm fragmentPath upd
                                         [fragmentPath @ ''.plain.html''] c)
                   (MEDIA_PREFIX E) p (fragments data) c1)"
    using fl by (rule fragmentsLoop_entries)
  then show ?thesis using Suc data ce m by simp
qed

section \<open>Properties of every entry of a manifest\<close>






section \<open>The aggregate timestamp\<close>

lemma fold_max_max: "fold max xs (max a b) = max (a::int) (fold max xs b)"
proof (induction xs arbitrary: b)
  case Nil
  then show ?case by simp
next
  case (Cons x xs)
  have "max x (max a b) = max a (max x b)" by (rule max.left_commute)
  then show ?case using Cons.IH[of "max x b"] by simp
qed

lemma knownTimes_append: "knownTimes (xs @ ys) = knownTimes xs @ knownTimes ys"
  by (induction xs) (auto split: option.split jsnum.split)

lemma knownTimes_mem:
  "n \<in> set (knownTimes es) = (\<exists>e\<in>set es. entry.timestamp e = Some (Num n))"
  by (induction es) (auto split: option.split jsnum.split)

lemma knownTimes_None: "\<forall>e\<in>set es. entry.timestamp e = None \<Longrightarrow> knownTimes es = []"
  by (induction es) auto

lemma resourceEntry_time:
  "snd (resourceEntry E pp r resp (Num a))
     = Num (fold max (knownTimes [fst (resourceEntry E pp r resp (Num a))]) a)"
proof -
  have "(if js_gt t (Num a) then t else Num a)
      = Num (case t of NaN \<Rightarrow> a | Num n \<Rightarrow> max n a)" for t
    by (cases t) auto
  then show ?thesis
    by (auto simp: resourceEntry_def Let_def split: option.split jsnum.split)
qed

lemma resourcesLoop_time:
  "resourcesLoop E host pp rs es (Num a) = (es', lm') \<Longrightarrow>
     \<exists>es''. es' = es @ es'' \<and> lm' = Num (fold max (knownTimes es'') a)"
proof (induction rs arbitrary: es a)
  case Nil
  then show ?case by simp
next
  case (Cons r rs)
  have step: "\<exists>es''. es' = es @ es'' \<and> lm' = Num (fold max (knownTimes es'') a)"
    if loop: "resourcesLoop E host pp rs (es @ [fst (resourceEntry E pp r resp (Num a))])
           (snd (resourceEntry E pp r resp (Num a))) = (es', lm')" for resp
  proof -
    let ?e = "fst (resourceEntry E pp r resp (Num a))"
    let ?b = "fold max (knownTimes [?e]) a"
    have "resourcesLoop E host pp rs (es @ [?e]) (Num ?b) = (es', lm')"
      using loop by (simp only: resourceEntry_time)
    then obtain es2 where "es' = (es @ [?e]) @ es2" "lm' = Num (fold max (knownTimes es2) ?b)"
      using Cons.IH by blast
    then have "es' = es @ (?e # es2) \<and> lm' = Num (fold max (knownTimes (?e # es2)) a)"
      using knownTimes_append[of "[?e]" es2] by simp
    then show ?thesis by blast
  qed
  show ?case
  proof (cases "fetchDataWithMethod E host (trim r) ''HEAD''")
    case Unavailable
    show ?thesis
    proof (cases "isFileDirty E (drop 1 (trim r))")
      case False
      then have "resourcesLoop E host pp rs es (Num a) = (es', lm')"
        using Unavailable Cons.prems by (simp add: Let_def)
      then show ?thesis by (rule Cons.IH)
    next
      case True
      then show ?thesis
        using Unavailable Cons.prems step[of None] by (simp add: Let_def split: prod.splits)
    qed
  next
    case (Response h)
    then show ?thesis
      using Cons.prems step[of "Some h"] by (simp add: Let_def split: prod.splits)
  qed
qed

lemma createEntries_time:
  assumes "createEntries E host q rs u k = Inr ((es, lm), k')"
  shows "\<exists>pe es''. getPageJsonEntry E host q u k = Inr (pe, k') \<and> es = pe # es''
           \<and> lm = Num (fold max (knownTimes es) 0)"
proof -
  from assms obtain pe where
    pe: "getPageJsonEntry E host q u k = Inr (pe, k')"
    and loop: "resourcesLoop E host (getParentFromPath q) rs [pe]
                 (case entry.timestamp pe of None \<Rightarrow> Num 0
                  | Some t \<Rightarrow> if truthy_num (Some t) \<and> js_gt t (Num 0) then t else Num 0)
               = (es, lm)"
    by (auto simp: createEntries_def Let_def split: sum.splits prod.splits)
  have "(case entry.timestamp pe of None \<Rightarrow> Num 0
         | Some t \<Rightarrow> if truthy_num (Some t) \<and> js_gt t (Num 0) then t else Num 0)
        = Num (fold max (knownTimes [pe]) 0)"
    by (auto split: option.split jsnum.split)
  then have "resourcesLoop E host (getParentFromPath q) rs [pe] (Num (fold max (knownTimes [pe]) 0))
      = (es, lm)"
    using loop by simp
  then obtain es2 where "es = [pe] @ es2" "lm = Num (fold max (knownTimes es2) (fold max (knownTimes [pe]) 0))"
    using resourcesLoop_time by blast
  then have "es = pe # es2 \<and> lm = Num (fold max (knownTimes es) 0)"
    using knownTimes_append[of "[pe]" es2] by simp
  then show ?thesis using pe by blast
qed

lemma fragmentsLoop_time:
  assumes "\<And>f k r kf. call f k = Some (Inr (r, kf)) \<Longrightarrow> snd r = Num (fold max (knownTimes (built f k)) 0)"
  shows "fragmentsLoop call marker pg fs all (Num a) c = Some (Inr ((all', flm'), c')) \<Longrightarrow> 0 \<le> a \<Longrightarrow>
     flm' = Num (fold max (knownTimes (fragmentsBuilt built call fs c)) a)"
proof (induction fs arbitrary: all a c)
  case Nil
  then show ?case by simp
next
  case (Cons f fs)
  from Cons.prems(1) obtain mf tf cf where
    call: "call f c = Some (Inr ((mf, tf), cf))"
    and rest: "fragmentsLoop call marker pg fs (mergeEntries marker pg all (entries mf))
                 (js_max (Num a) tf) cf = Some (Inr ((all', flm'), c'))"
    by (auto split: option.splits sum.splits)
  let ?t = "fold max (knownTimes (built f c)) 0"
  have tf: "tf = Num ?t" using assms[OF call] by simp
  have m: "max a ?t = fold max (knownTimes (built f c)) a"
    using fold_max_max[of "knownTimes (built f c)" a 0] Cons.prems(2) by (simp add: max.absorb1)
  have "flm' = Num (fold max (knownTimes (fragmentsBuilt built call fs cf)) (max a ?t))"
    using rest Cons.prems(2) unfolding tf by (intro Cons.IH[of _ "max a ?t"]) auto
  then show ?case using call m by (simp add: knownTimes_append)
qed

lemma fold_max_ge: "(a::int) \<le> fold max xs a"
proof (induction xs arbitrary: a)
  case Nil
  then show ?case by simp
next
  case (Cons x xs)
  have "max x a \<le> fold max xs (max x a)" by (rule Cons.IH)
  then show ?case by simp
qed

lemma fold_max_append0:
  "fold max (xs @ ys) (0::int) = max (fold max xs 0) (fold max ys 0)"
proof -
  have "max (fold max xs 0) 0 = fold max xs (0::int)"
    using fold_max_ge[of 0 xs] by (simp add: max.absorb1)
  then have "fold max ys (fold max xs 0) = max (fold max xs 0) (fold max ys 0)"
    using fold_max_max[of ys "fold max xs 0" 0] by simp
  then show ?thesis by simp
qed

lemma createManifest_time:
  "createManifest d E host mm p upd extra c = Some (Inr ((m, ts), c')) \<Longrightarrow>
     ts = Num (fold max (knownTimes (builtEntries d E host mm p upd extra c)) 0)
     \<and> manifest.timestamp m = ts"
proof (induction d arbitrary: p extra c m ts c')
  case 0
  then show ?case by simp
next
  case (Suc d)
  let ?call = "\<lambda>fragmentPath c. createManifest d E host mm fragmentPath upd
                                     [fragmentPath @ ''.plain.html''] c"
  let ?built = "\<lambda>fragmentPath c. builtEntries d E host mm fragmentPath upd
                                     [fragmentPath @ ''.plain.html''] c"
  from Suc.prems obtain data es lm c1 all flm where
    data: "mm p = Some data"
    and ce: "createEntries E host (pageData.path data)
               (newSet (scripts data @ styles data @ map trimImagesPath (assets data)
                          @ map trimImagesPath (inlineImages data) @ dependencies data @ extra))
               (upd (pageData.path data) = Some True) c = Inr ((es, lm), c1)"
    and fl: "fragmentsLoop ?call (MEDIA_PREFIX E) p (fragments data) (foldl mapSet [] es) (Num 0) c1
             = Some (Inr ((all, flm), c'))"
    and ts: "ts = js_max lm flm"
    and m: "manifest.timestamp m = js_max lm flm"
    by (auto simp: Let_def split: option.splits sum.splits)
  have lm: "lm = Num (fold max (knownTimes es) 0)"
    using createEntries_time[OF ce] by blast
  have calls: "snd r = Num (fold max (knownTimes (?built f k)) 0)"
    if "?call f k = Some (Inr (r, kf))" for f k r kf
  proof -
    obtain mf tf where r: "r = (mf, tf)" by (cases r)
    show ?thesis using Suc.IH[of f "[f @ ''.plain.html'']" k mf tf kf] that r by simp
  qed
  have flm: "flm = Num (fold max (knownTimes (fragmentsBuilt ?built ?call (fragments data) c1)) 0)"
  proof (rule fragmentsLoop_time[where built = ?built and call = ?call, OF _ fl])
    show "(0::int) \<le> 0" by simp
  qed (rule calls)
  have b: "builtEntries (Suc d) E host mm p upd extra c
      = es @ fragmentsBuilt ?built ?call (fragments data) c1"
    using data ce by simp
  have "js_max lm flm = Num (fold max (knownTimes (builtEntries (Suc d) E host mm p upd extra c)) 0)"
    unfolding b lm flm by (simp only: knownTimes_append fold_max_append0 js_max.simps)
  then show ?case using ts m by simp
qed

lemma Max_fold0: "Max (set (0 # xs)) = fold max xs (0::int)"
  by (rule Max.set_eq_fold)

section \<open>Two runs with different clocks\<close>

















section \<open>The depth bound\<close>

text \<open>
  A call of \<open>createManifest\<close> that ends within a depth ends in the same way within
  every greater depth: the bound only cuts off the recursions that go deeper.
\<close>

lemma fragmentsLoop_more:
  assumes "\<And>f k r. call1 f k = Some r \<Longrightarrow> call2 f k = Some r"
  shows "fragmentsLoop call1 marker pg fs m flm c = Some r \<Longrightarrow>
     fragmentsLoop call2 marker pg fs m flm c = Some r"
proof (induction fs arbitrary: m flm c)
  case Nil
  then show ?case by simp
next
  case (Cons f fs)
  from Cons.prems obtain rf where rf: "call1 f c = Some rf" by (auto split: option.splits)
  then have rf2: "call2 f c = Some rf" by (rule assms)
  show ?case
  proof (cases rf)
    case (Inl err)
    then show ?thesis using Cons.prems rf rf2 by simp
  next
    case (Inr v)
    obtain mf tf kf where v: "v = ((mf, tf), kf)" by (metis prod.exhaust)
    have "fragmentsLoop call1 marker pg fs (mergeEntries marker pg m (entries mf)) (js_max flm tf) kf
        = Some r"
      using Cons.prems rf Inr v by simp
    then have "fragmentsLoop call2 marker pg fs (mergeEntries marker pg m (entries mf)) (js_max flm tf) kf
        = Some r"
      by (rule Cons.IH)
    then show ?thesis using rf2 Inr v by simp
  qed
qed

lemma createManifest_Suc:
  assumes "mm p = Some data"
    and "createEntries E host (pageData.path data)
           (newSet (scripts data @ styles data @ map trimImagesPath (assets data)
                      @ map trimImagesPath (inlineImages data) @ dependencies data @ extra))
           (upd (pageData.path data) = Some True) c = Inr ((es, lm), c1)"
  shows "createManifest (Suc d) E host mm p upd extra c =
     (case fragmentsLoop
             (\<lambda>fragmentPath c. createManifest d E host mm fragmentPath upd
                                   [fragmentPath @ ''.plain.html''] c)
             (MEDIA_PREFIX E) p (fragments data) (foldl mapSet [] es) (Num 0) c1 of
        None \<Rightarrow> None
      | Some (Inl err) \<Rightarrow> Some (Inl err)
      | Some (Inr ((allEntries, fragmentsLastModified), clock2)) \<Rightarrow>
          Some (Inr ((\<lparr>version = ''3.0'',
                       timestamp = js_max lm fragmentsLastModified,
                       entries = allEntries,
                       contentDelivery =
                         \<lparr>providers = [\<lparr>name = ''franklin'', endpoint = ''/''\<rparr>],
                          defaultProvider = ''franklin''\<rparr>\<rparr>,
                      js_max lm fragmentsLastModified), clock2)))"
  using assms by simp

lemma createManifest_more_depth:
  "createManifest d E host mm p upd extra c = Some r \<Longrightarrow>
     createManifest (Suc d) E host mm p upd extra c = Some r"
proof (induction d arbitrary: p extra c r)
  case 0
  then show ?case by simp
next
  case (Suc d)
  let ?call1 = "\<lambda>fragmentPath c. createManifest d E host mm fragmentPath upd
                                     [fragmentPath @ ''.plain.html''] c"
  let ?call2 = "\<lambda>fragmentPath c. createManifest (Suc d) E host mm fragmentPath upd
                                     [fragmentPath @ ''.plain.html''] c"
  show ?case
  proof (cases "mm p")
    case None
    then show ?thesis using Suc.prems by simp
  next
    case (Some data)
    let ?rs = "newSet (scripts data @ styles data @ map trimImagesPath (assets data)
                 @ map trimImagesPath (inlineImages data) @ dependencies data @ extra)"
    show ?thesis
    proof (cases "createEntries E host (pageData.path data) ?rs
                    (upd (pageData.path data) = Some True) c")
      case (Inl err)
      then show ?thesis using Suc.prems Some by simp
    next
      case (Inr v)
      obtain es lm c1 where v: "v = ((es, lm), c1)" by (metis prod.exhaust)
      from Suc.prems Some Inr v obtain rl where
        l1: "fragmentsLoop ?call1 (MEDIA_PREFIX E) p (fragments data) (foldl mapSet [] es) (Num 0) c1
               = Some rl"
        by (auto split: option.splits)
      have l2: "fragmentsLoop ?call2 (MEDIA_PREFIX E) p (fragments data) (foldl mapSet [] es) (Num 0) c1
               = Some rl"
        using l1 by (rule fragmentsLoop_more[rotated]) (rule Suc.IH)
      have ce: "createEntries E host (pageData.path data) ?rs
                    (upd (pageData.path data) = Some True) c = Inr ((es, lm), c1)"
        using Inr v by simp
      have "createManifest (Suc (Suc d)) E host mm p upd extra c
          = createManifest (Suc d) E host mm p upd extra c"
        by (simp only: createManifest_Suc[where mm = mm and p = p and upd = upd, OF Some ce] l1 l2)
      then show ?thesis using Suc.prems by simp
    qed
  qed
qed

section \<open>The hash of a media path\<close>

text \<open>
  Where the trimmed path begins with the media-prefix marker and has a \<open>.\<close> in it, the
  marker itself having none, \<open>getHashFromMedia\<close> (both copies) returns the substring
  between the marker and the first \<open>.\<close> after it.
\<close>

lemma getHashFromMedia_marker_first:
  assumes pre: "prefix marker (trim p)"
    and m: "CHR ''.'' \<notin> set marker" and dot: "CHR ''.'' \<in> set (trim p)"
  shows "PathUtils_getHashFromMedia marker p = mediaHash_spec marker p
         \<and> ManifestGenerator_getHashFromMedia marker p = mediaHash_spec marker p"
proof -
  obtain r where r: "trim p = marker @ r" using pre by (auto simp: prefix_def)
  then have "CHR ''.'' \<in> set r" using m dot by auto
  then obtain h rest where hr: "r = h @ CHR ''.'' # rest" "CHR ''.'' \<notin> set h"
    by (meson split_list_first)
  have t: "trim p = marker @ h @ CHR ''.'' # rest" using r hr by simp
  have i0: "indexOf (marker @ h @ CHR ''.'' # rest) marker = 0"
    using indexOf_prefix[OF pre] t by simp
  have "mediaHash_spec marker p = h"
    using hr(2) by (auto simp: mediaHash_spec_def i0 t takeWhile_tail)
  moreover have "PathUtils_getHashFromMedia marker p = h"
    by (rule getHashFromMedia_decomposed[OF t m hr(2)])
  ultimately show ?thesis by (simp add: getHashFromMedia_same)
qed

text \<open>
  C4. The claim has \<open>getHashFromMedia\<close> return, for every media path, the substring
  between the media-prefix marker and the first \<open>.\<close> after it. Both copies cut the
  trimmed path from the fixed offset \<open>MEDIA_PREFIX.length\<close> to the first \<open>.\<close> of the
  whole path and never look for the marker, which \<open>isMedia\<close> accepts anywhere in the
  path. \<open>/content/media_1234.png\<close> is a media path, the substring between the marker
  and the first \<open>.\<close> after it is \<open>1234\<close>, and both copies return \<open>t/media_1234\<close>;
  the manifest of the page \<open>/site/gallery\<close>, which lists that path as a script, gives
  the entry this hash.
\<close>

theorem getHashFromMedia_marker_inside:
  "PathUtils_isMedia ''/media_'' ''/content/media_1234.png''
   \<and> ManifestGenerator_isMedia ''/media_'' ''/content/media_1234.png''
   \<and> mediaHash_spec ''/media_'' ''/content/media_1234.png'' = ''1234''
   \<and> PathUtils_getHashFromMedia ''/media_'' ''/content/media_1234.png'' = ''t/media_1234''
   \<and> ManifestGenerator_getHashFromMedia ''/media_'' ''/content/media_1234.png'' = ''t/media_1234''
   \<and> createManifest 1 exampleEnv ''host'' galleryMap ''/site/gallery'' Map.empty [] 0 =
       Some (Inr ((\<lparr>version = ''3.0'', timestamp = Num 0,
                    entries =
                      [\<lparr>entry.path = ''/site/gallery.html'', timestamp = None, hash = None\<rparr>,
                       \<lparr>entry.path = ''/site/content/media_1234.png'', timestamp = None,
                          hash = Some ''t/media_1234''\<rparr>],
                    contentDelivery =
                      \<lparr>providers = [\<lparr>name = ''franklin'', endpoint = ''/''\<rparr>],
                       defaultProvider = ''franklin''\<rparr>\<rparr>,
                   Num 0), 0))"
  by (simp add: PathUtils_isMedia_def mediaHash_spec_def PathUtils_getHashFromMedia_def
      manifest_defs path_defs string_defs exampleEnv_def galleryMap_def page_def)

section \<open>The two copies of \<open>extractMediaFromPath\<close>\<close>

text \<open>
  C10. On every string without leading white space the copy of \<open>extractMediaFromPath\<close>
  in \<open>ManifestGenerator\<close> returns what the one in \<open>PathUtils\<close> returns: the
  part of the trimmed string from the first occurrence of the marker on, or the whole
  trimmed string when the marker does not occur in it. The copies differ in the string
  whose index of the marker they take, and trailing white space does not move that
  index; the marker (a constant the source imports) is taken not to end in white space.
\<close>

theorem extractMediaFromPath_agree:
  assumes p: "dropWhile isWhiteSpace p = p"
    and m: "marker = [] \<or> \<not> isWhiteSpace (last marker)"
  shows "ManifestGenerator_extractMediaFromPath marker p = PathUtils_extractMediaFromPath marker p
    \<and> (if includes_str (trim p) marker
       then \<exists>a. trim p = a @ PathUtils_extractMediaFromPath marker p
              \<and> prefix marker (PathUtils_extractMediaFromPath marker p)
              \<and> (\<forall>j<length a. \<not> prefix marker (drop j (trim p)))
       else PathUtils_extractMediaFromPath marker p = trim p)"
proof -
  have "ManifestGenerator_extractMediaFromPath marker p = PathUtils_extractMediaFromPath marker p"
    by (simp add: ManifestGenerator_extractMediaFromPath_def PathUtils_extractMediaFromPath_def
        indexOf_trim[OF p m] Let_def)
  moreover have "includes_str (trim p) marker \<Longrightarrow>
      \<exists>a. trim p = a @ PathUtils_extractMediaFromPath marker p
         \<and> prefix marker (PathUtils_extractMediaFromPath marker p)
         \<and> (\<forall>j<length a. \<not> prefix marker (drop j (trim p)))"
    unfolding PathUtils_extractMediaFromPath_def Let_def
    using substring1_found[of "trim p" marker] by blast
  moreover have "\<not> includes_str (trim p) marker \<Longrightarrow> PathUtils_extractMediaFromPath marker p = trim p"
    by (simp add: PathUtils_extractMediaFromPath_def substring1_absent Let_def)
  ultimately show ?thesis by simp
qed

text \<open>The two copies on \<open>"/frag/media_12.png  "\<close>.\<close>

theorem extractMediaFromPath_agree_witness:
  "dropWhile isWhiteSpace ''/frag/media_12.png  '' = ''/frag/media_12.png  ''
   \<and> \<not> isWhiteSpace (last ''/media_'')
   \<and> ManifestGenerator_extractMediaFromPath ''/media_'' ''/frag/media_12.png  '' = ''/media_12.png''
   \<and> PathUtils_extractMediaFromPath ''/media_'' ''/frag/media_12.png  '' = ''/media_12.png''"
proof -
  have a: "dropWhile isWhiteSpace ''/frag/media_12.png  '' = ''/frag/media_12.png  ''"
    by (simp add: isWhiteSpace_def)
  have b: "\<not> isWhiteSpace (last ''/media_'')" by (simp add: isWhiteSpace_def)
  then have b': "''/media_'' = [] \<or> \<not> isWhiteSpace (last ''/media_'')" by simp
  have c: "PathUtils_extractMediaFromPath ''/media_'' ''/frag/media_12.png  '' = ''/media_12.png''"
    by (simp add: PathUtils_extractMediaFromPath_def trim_def isWhiteSpace_def indexOf_def
        substring1_def clampIndex_def)
  have d: "ManifestGenerator_extractMediaFromPath ''/media_'' ''/frag/media_12.png  ''
      = PathUtils_extractMediaFromPath ''/media_'' ''/frag/media_12.png  ''"
    using extractMediaFromPath_agree[OF a b'] by (rule conjunct1)
  show ?thesis using a b c d by (simp only: simp_thms)
qed

section \<open>The page entry\<close>

text \<open>
  When the probe of \<open>path.html\<close> returns, \<open>getPageJsonEntry\<close> returns the entry of
  that path, with the wall-clock time when the page was just updated, else the parsed
  \<open>last-modified\<close> value when the header is there and not empty, else no timestamp.
\<close>

lemma getPageJsonEntry_returns:
  assumes "fetchDataWithMethod E host (p @ ''.html'') ''HEAD'' = Response h"
  shows "getPageJsonEntry E host p u c =
           Inr (\<lparr>entry.path = p @ ''.html'',
                 timestamp = (if u then Some (Num (now E c))
                              else case h of None \<Rightarrow> None
                                   | Some d \<Rightarrow> if d = [] then None else Some (parseDate E d)),
                 hash = None\<rparr>,
                if u then Suc c else c)"
  using assms by (simp add: getPageJsonEntry_def lastModifiedHeader_def split: option.split)

text \<open>
  C3. The claim has \<open>getPageJsonEntry\<close> return the entry without a timestamp when
  the probe fails. The source awaits \<open>FetchUtils.fetchDataWithMethod\<close> outside any
  \<open>try\<close>, unlike the loop over the resources in \<open>createEntries\<close>: when the probe
  throws, \<open>getPageJsonEntry\<close> rejects, and so does \<open>createEntries\<close>.
\<close>

theorem getPageJsonEntry_probe_throws:
  assumes "fetchDataWithMethod E host (p @ ''.html'') ''HEAD'' = Unavailable"
  shows "getPageJsonEntry E host p u c = Inl FetchError
         \<and> createEntries E host p rs u c = Inl FetchError"
  using assms by (simp add: getPageJsonEntry_def createEntries_def)

text \<open>The page \<open>/gone\<close>, whose \<open>/gone.html\<close> is missing on the host.\<close>

theorem getPageJsonEntry_probe_throws_witness:
  "fetchDataWithMethod exampleEnv ''host'' (''/gone'' @ ''.html'') ''HEAD'' = Unavailable
   \<and> getPageJsonEntry exampleEnv ''host'' ''/gone'' False 0 = Inl FetchError
   \<and> createEntries exampleEnv ''host'' ''/gone'' [] False 0 = Inl FetchError"
proof -
  have h: "fetchDataWithMethod exampleEnv ''host'' (''/gone'' @ ''.html'') ''HEAD'' = Unavailable"
    by (simp add: exampleEnv_def)
  show ?thesis using getPageJsonEntry_probe_throws[OF h] h by simp
qed

section \<open>Resources that are not available\<close>

lemma resourcesLoop_append:
  "resourcesLoop E host pp (xs @ ys) es lm =
     (case resourcesLoop E host pp xs es lm of (es', lm') \<Rightarrow> resourcesLoop E host pp ys es' lm')"
  by (induction xs arbitrary: es lm) (auto simp: Let_def split: probe.split prod.split)

text \<open>
  C5. A resource whose probe throws and which is not dirty leaves no trace: the result
  of \<open>createEntries\<close> (the entries, \<open>lastModified\<close>, and whether it rejects) is the
  one for the resource list without it, wherever the resource stands in the list; and
  \<open>createEntries\<close> returns unless the probe of the page itself throws.
\<close>

theorem createEntries_skips_unavailable:
  assumes "fetchDataWithMethod E host (trim r) ''HEAD'' = Unavailable"
    and "\<not> isFileDirty E (drop 1 (trim r))"
  shows "createEntries E host p (pre @ r # post) u c = createEntries E host p (pre @ post) u c
    \<and> (fetchDataWithMethod E host (p @ ''.html'') ''HEAD'' = Unavailable
        \<or> (\<exists>res. createEntries E host p (pre @ r # post) u c = Inr res))"
proof -
  have skip: "\<And>es lm. resourcesLoop E host pp (r # post) es lm = resourcesLoop E host pp post es lm" for pp
    using assms by (simp add: Let_def)
  have loop: "\<And>es lm. resourcesLoop E host pp (pre @ r # post) es lm
      = resourcesLoop E host pp (pre @ post) es lm" for pp
    by (simp only: resourcesLoop_append skip)
  have eq: "createEntries E host p (pre @ r # post) u c = createEntries E host p (pre @ post) u c"
    by (simp add: createEntries_def loop Let_def split: sum.split prod.split)
  have "fetchDataWithMethod E host (p @ ''.html'') ''HEAD'' = Unavailable
        \<or> (\<exists>res. createEntries E host p (pre @ r # post) u c = Inr res)"
  proof (cases "fetchDataWithMethod E host (p @ ''.html'') ''HEAD''")
    case Unavailable
    then show ?thesis by simp
  next
    case (Response h)
    then show ?thesis
      by (simp add: createEntries_def getPageJsonEntry_returns[OF Response] Let_def)
  qed
  then show ?thesis using eq by simp
qed

text \<open>The script \<open>/gone.js\<close> before \<open>/scripts/lib.js\<close> on the page \<open>/site/page\<close>.\<close>

theorem createEntries_skips_unavailable_witness:
  "fetchDataWithMethod exampleEnv ''host'' (trim ''/gone.js'') ''HEAD'' = Unavailable
   \<and> \<not> isFileDirty exampleEnv (drop 1 (trim ''/gone.js''))
   \<and> createEntries exampleEnv ''host'' ''/site/page'' ([] @ ''/gone.js'' # [''/scripts/lib.js'']) False 0
       = Inr (([\<lparr>entry.path = ''/site/page.html'', timestamp = Some (Num 1704067200000), hash = None\<rparr>,
                \<lparr>entry.path = ''/scripts/lib.js'', timestamp = Some (Num 1704153600000), hash = None\<rparr>],
               Num 1704153600000), 0)"
proof -
  have a: "fetchDataWithMethod exampleEnv ''host'' (trim ''/gone.js'') ''HEAD'' = Unavailable"
    by (simp add: exampleEnv_def string_defs)
  have b: "\<not> isFileDirty exampleEnv (drop 1 (trim ''/gone.js''))"
    by (simp add: exampleEnv_def)
  have c: "createEntries exampleEnv ''host'' ''/site/page'' ([] @ [''/scripts/lib.js'']) False 0
       = Inr (([\<lparr>entry.path = ''/site/page.html'', timestamp = Some (Num 1704067200000), hash = None\<rparr>,
                \<lparr>entry.path = ''/scripts/lib.js'', timestamp = Some (Num 1704153600000), hash = None\<rparr>],
               Num 1704153600000), 0)"
    by (simp add: manifest_defs path_defs string_defs exampleEnv_def)
  have d: "createEntries exampleEnv ''host'' ''/site/page'' ([] @ ''/gone.js'' # [''/scripts/lib.js'']) False 0
      = createEntries exampleEnv ''host'' ''/site/page'' ([] @ [''/scripts/lib.js'']) False 0"
    using createEntries_skips_unavailable[OF a b] by (rule conjunct1)
  show ?thesis using a b c d by (simp only: simp_thms)
qed

section \<open>Media entries of fragments\<close>

text \<open>
  Where the path of an entry has no leading white space, the rebased path is the parent
  of the page followed by what \<open>PathUtils.extractMediaFromPath\<close> returns: the trimmed
  path from the marker on. An entry that is not media is stored as it is.
\<close>

lemma rebase_media:
  assumes "ManifestGenerator_isMedia marker (entry.path e)"
    and "dropWhile isWhiteSpace (entry.path e) = entry.path e"
    and "marker = [] \<or> \<not> isWhiteSpace (last marker)"
  shows "entry.path (rebase marker pagePath e)
           = getParentFromPath pagePath @ PathUtils_extractMediaFromPath marker (entry.path e)"
proof -
  have "indexOf (entry.path e) marker = indexOf (trim (entry.path e)) marker"
    using assms(2,3) by (rule indexOf_trim)
  then show ?thesis
    using assms(1)
    by (simp add: rebase_def ManifestGenerator_extractMediaFromPath_def
        PathUtils_extractMediaFromPath_def Let_def)
qed

lemma rebase_not_media: "\<not> ManifestGenerator_isMedia marker (entry.path e) \<Longrightarrow> rebase marker pagePath e = e"
  by (simp add: rebase_def)

text \<open>
  C2. The claim has every media entry of a fragment stored under the parent of the page
  followed by the path from the marker on. \<open>ManifestGenerator.extractMediaFromPath\<close>
  takes the index of the marker in the path as given and the substring of the trimmed
  path, so a media path with leading white space loses as many characters after the
  start of the marker. The fragment \<open>/frag\<close> of the page \<open>/a/b/page\<close> lists the
  script \<open>" /media_1234.png"\<close>: its entry has that path, the path from the marker on is
  \<open>/media_1234.png\<close>, and the manifest of the page stores the entry under
  \<open>/a/bmedia_1234.png\<close>, not \<open>/a/b/media_1234.png\<close>.
\<close>

theorem fragment_media_leading_space:
  "createManifest 2 exampleEnv ''host'' spacedMap ''/frag'' Map.empty [''/frag.plain.html''] 0 =
     Some (Inr ((\<lparr>version = ''3.0'', timestamp = Num 0,
                  entries =
                    [\<lparr>entry.path = ''/frag.html'', timestamp = None, hash = None\<rparr>,
                     \<lparr>entry.path = '' /media_1234.png'', timestamp = None, hash = Some ''1234''\<rparr>,
                     \<lparr>entry.path = ''/frag.plain.html'', timestamp = None, hash = None\<rparr>],
                  contentDelivery =
                    \<lparr>providers = [\<lparr>name = ''franklin'', endpoint = ''/''\<rparr>],
                     defaultProvider = ''franklin''\<rparr>\<rparr>,
                 Num 0), 0))
   \<and> getParentFromPath ''/a/b/page'' @ PathUtils_extractMediaFromPath ''/media_'' '' /media_1234.png''
       = ''/a/b/media_1234.png''
   \<and> createManifest 2 exampleEnv ''host'' spacedMap ''/a/b/page'' Map.empty [] 0 =
     Some (Inr ((\<lparr>version = ''3.0'', timestamp = Num 0,
                  entries =
                    [\<lparr>entry.path = ''/a/b/page.html'', timestamp = None, hash = None\<rparr>,
                     \<lparr>entry.path = ''/frag.html'', timestamp = None, hash = None\<rparr>,
                     \<lparr>entry.path = ''/a/bmedia_1234.png'', timestamp = None, hash = Some ''1234''\<rparr>,
                     \<lparr>entry.path = ''/frag.plain.html'', timestamp = None, hash = None\<rparr>],
                  contentDelivery =
                    \<lparr>providers = [\<lparr>name = ''franklin'', endpoint = ''/''\<rparr>],
                     defaultProvider = ''franklin''\<rparr>\<rparr>,
                 Num 0), 0))"
  by (simp add: numeral_2_eq_2 manifest_defs path_defs string_defs exampleEnv_def spacedMap_def page_def)

section \<open>Distinct paths, and the last entry of a path\<close>

text \<open>
  C7. In the manifest that \<open>createManifest\<close> returns the paths of the entries are
  pairwise distinct; they are the paths of the entries processed (the page entry, the
  resource entries, then the rebased entries of each fragment in the order of the
  fragment list); and every entry of the manifest is the last processed entry of its
  path: no entry processed after it has the same path.
\<close>

theorem createManifest_last_wins:
  assumes "createManifest d E host mm p upd extra c = Some (Inr ((m, ts), c'))"
  shows "distinct (map entry.path (entries m))
    \<and> set (map entry.path (entries m)) = set (map entry.path (processedEntries d E host mm p upd extra c))
    \<and> (\<forall>e\<in>set (entries m). \<exists>pre post.
           processedEntries d E host mm p upd extra c = pre @ e # post
           \<and> entry.path e \<notin> entry.path ` set post)"
proof -
  let ?ps = "processedEntries d E host mm p upd extra c"
  have m: "entries m = foldl mapSet [] ?ps" using assms by (rule createManifest_entries)
  have 1: "distinct (map entry.path (entries m))"
    unfolding m by (rule foldl_mapSet_distinct) simp
  have 2: "set (map entry.path (entries m)) = set (map entry.path ?ps)"
    unfolding m by (simp add: foldl_mapSet_paths)
  have 3: "\<exists>pre post. ?ps = pre @ e # post \<and> entry.path e \<notin> entry.path ` set post"
    if "e \<in> set (entries m)" for e
    using foldl_mapSet_last[of "[]" e ?ps] that unfolding m by simp
  show ?thesis using 1 2 3 by blast
qed

text \<open>
  The page \<open>/site/page\<close>: the script \<open>/scripts/lib.js\<close> is processed three times, for
  the page and for its two fragments, and has one entry in the manifest.
\<close>

theorem createManifest_last_wins_witness:
  "createManifest 2 exampleEnv ''host'' siteMap ''/site/page'' Map.empty [] 0
     = Some (Inr ((siteManifest, Num 1704153600000), 0))
   \<and> distinct (map entry.path (entries siteManifest))
   \<and> map entry.path (processedEntries 2 exampleEnv ''host'' siteMap ''/site/page'' Map.empty [] 0)
       = [''/site/page.html'', ''/scripts/lib.js'', ''/site/media_1234.png'', ''/frags/nav.html'',
          ''/scripts/lib.js'', ''/site/media_77.png'', ''/frags/nav.plain.html'',
          ''/frags/footer.html'', ''/scripts/lib.js'', ''/frags/footer.plain.html'']"
proof -
  have h: "createManifest 2 exampleEnv ''host'' siteMap ''/site/page'' Map.empty [] 0
     = Some (Inr ((siteManifest, Num 1704153600000), 0))"
    by (rule siteManifest_returned)
  have d: "distinct (map entry.path (entries siteManifest))"
    using createManifest_last_wins[OF h] by (rule conjunct1)
  have p: "map entry.path (processedEntries 2 exampleEnv ''host'' siteMap ''/site/page'' Map.empty [] 0)
       = [''/site/page.html'', ''/scripts/lib.js'', ''/site/media_1234.png'', ''/frags/nav.html'',
          ''/scripts/lib.js'', ''/site/media_77.png'', ''/frags/nav.plain.html'',
          ''/frags/footer.html'', ''/scripts/lib.js'', ''/frags/footer.plain.html'']"
    by (simp add: numeral_2_eq_2 manifest_defs path_defs string_defs exampleEnv_def siteMap_def
        page_def)
  show ?thesis using h d p by (simp only: simp_thms)
qed

section \<open>Hash and timestamp\<close>







section \<open>The timestamp of the manifest\<close>

text \<open>
  C1 (as amended). The \<open>timestamp\<close> of the manifest that \<open>createManifest\<close> returns,
  which is also the aggregate timestamp it returns, is the maximum of \<open>0\<close> and the
  timestamps of all the entries built: the page entry, every resource entry built, and
  every entry built for the fragments and theirs, including entries that a later entry of
  the same path replaces in a manifest. Entries without a timestamp, and \<open>NaN\<close>
  timestamps (of a date that does not parse), do not take part. So the manifest
  timestamp is at least the timestamp of the page entry when that is a number.
\<close>

theorem manifest_timestamp_max:
  assumes "createManifest d E host mm p upd extra c = Some (Inr ((m, ts), c'))"
  shows "manifest.timestamp m
           = Num (Max (set (0 # knownTimes (builtEntries d E host mm p upd extra c))))
    \<and> ts = manifest.timestamp m
    \<and> (\<forall>data pe k n.
          mm p = Some data
          \<and> getPageJsonEntry E host (pageData.path data) (upd (pageData.path data) = Some True) c
              = Inr (pe, k)
          \<and> entry.timestamp pe = Some (Num n)
          \<longrightarrow> n \<le> Max (set (0 # knownTimes (builtEntries d E host mm p upd extra c))))"
proof -
  let ?built = "builtEntries d E host mm p upd extra c"
  have t: "ts = Num (Max (set (0 # knownTimes ?built)))" "manifest.timestamp m = ts"
    using createManifest_time[OF assms] by (simp_all only: Max_fold0)
  have pg: "n \<le> Max (set (0 # knownTimes ?built))"
    if data: "mm p = Some data"
      and pe: "getPageJsonEntry E host (pageData.path data) (upd (pageData.path data) = Some True) c
                 = Inr (pe, k)"
      and n: "entry.timestamp pe = Some (Num n)"
    for data pe k n
  proof -
    obtain d' where d: "d = Suc d'" using assms by (cases d) auto
    from assms obtain es lm c1 where
      ce: "createEntries E host (pageData.path data)
               (newSet (scripts data @ styles data @ map trimImagesPath (assets data)
                          @ map trimImagesPath (inlineImages data) @ dependencies data @ extra))
               (upd (pageData.path data) = Some True) c = Inr ((es, lm), c1)"
      using d data by (auto simp: Let_def split: option.splits sum.splits)
    have "pe \<in> set es" using createEntries_time[OF ce] pe by auto
    then have "pe \<in> set ?built" using d data ce by simp
    then have "n \<in> set (0 # knownTimes ?built)" using n knownTimes_mem[of n ?built] by auto
    then show ?thesis by (intro Max_ge) simp_all
  qed
  show ?thesis
  proof (intro conjI allI impI)
    show "manifest.timestamp m = Num (Max (set (0 # knownTimes ?built)))" using t by simp
    show "ts = manifest.timestamp m" using t by simp
  next
    fix data pe k n
    assume "mm p = Some data
          \<and> getPageJsonEntry E host (pageData.path data) (upd (pageData.path data) = Some True) c
              = Inr (pe, k)
          \<and> entry.timestamp pe = Some (Num n)"
    then show "n \<le> Max (set (0 # knownTimes ?built))" using pg by blast
  qed
qed

text \<open>The manifest of \<open>/site/page\<close>: the script is newer than the page.\<close>

theorem manifest_timestamp_max_witness:
  "createManifest 2 exampleEnv ''host'' siteMap ''/site/page'' Map.empty [] 0
     = Some (Inr ((siteManifest, Num 1704153600000), 0))
   \<and> manifest.timestamp siteManifest
       = Num (Max (set (0 # knownTimes
                (builtEntries 2 exampleEnv ''host'' siteMap ''/site/page'' Map.empty [] 0))))
   \<and> knownTimes (builtEntries 2 exampleEnv ''host'' siteMap ''/site/page'' Map.empty [] 0)
       = [1704067200000, 1704153600000, 1704153600000, 1704153600000]
   \<and> manifest.timestamp siteManifest = Num 1704153600000"
proof -
  have h: "createManifest 2 exampleEnv ''host'' siteMap ''/site/page'' Map.empty [] 0
     = Some (Inr ((siteManifest, Num 1704153600000), 0))"
    by (rule siteManifest_returned)
  have a: "manifest.timestamp siteManifest
       = Num (Max (set (0 # knownTimes
                (builtEntries 2 exampleEnv ''host'' siteMap ''/site/page'' Map.empty [] 0))))"
    using manifest_timestamp_max[OF h] by (rule conjunct1)
  have b: "knownTimes (builtEntries 2 exampleEnv ''host'' siteMap ''/site/page'' Map.empty [] 0)
       = [1704067200000, 1704153600000, 1704153600000, 1704153600000]"
    by (simp add: numeral_2_eq_2 manifest_defs path_defs string_defs exampleEnv_def siteMap_def
        page_def)
  have c: "manifest.timestamp siteManifest = Num 1704153600000"
    by (simp add: siteManifest_def)
  show ?thesis using h a b c by (simp only: simp_thms)
qed

text \<open>
  C1 as stated fails for a page last modified before 1970: its entry carries the
  timestamp \<open>-1000\<close>, the only timestamp there is, and the timestamp of the manifest
  is \<open>0\<close>, the value that \<open>lastModified\<close> starts from.
\<close>

theorem pre_epoch_page_counterexample:
  "createManifest 1 exampleEnv ''host'' plainMap ''/old/page'' Map.empty [] 0 =
     Some (Inr ((\<lparr>version = ''3.0'', timestamp = Num 0,
                  entries =
                    [\<lparr>entry.path = ''/old/page.html'', timestamp = Some (Num (- 1000)),
                       hash = None\<rparr>],
                  contentDelivery =
                    \<lparr>providers = [\<lparr>name = ''franklin'', endpoint = ''/''\<rparr>],
                     defaultProvider = ''franklin''\<rparr>\<rparr>,
                 Num 0), 0))
   \<and> knownTimes (builtEntries 1 exampleEnv ''host'' plainMap ''/old/page'' Map.empty [] 0)
       = [- 1000]
   \<and> Max (set (knownTimes (builtEntries 1 exampleEnv ''host'' plainMap ''/old/page'' Map.empty [] 0)))
       = - 1000"
  by (simp add: manifest_defs path_defs string_defs exampleEnv_def plainMap_def page_def)

section \<open>The aggregate timestamp is not negative\<close>

text \<open>
  C9. The aggregate timestamp that \<open>createManifest\<close> returns is a non-negative
  integer, and the \<open>timestamp\<close> of the manifest is the same number. When none of
  the entries built (the page entry, the resource entries, the entries built for the
  fragments) carries a timestamp, both are \<open>0\<close>.
\<close>

theorem aggregate_timestamp_nonneg:
  assumes "createManifest d E host mm p upd extra c = Some (Inr ((m, ts), c'))"
  shows "(\<exists>n. 0 \<le> n \<and> ts = Num n \<and> manifest.timestamp m = Num n)
    \<and> ((\<forall>e\<in>set (builtEntries d E host mm p upd extra c). entry.timestamp e = None)
        \<longrightarrow> ts = Num 0 \<and> manifest.timestamp m = Num 0)"
proof -
  let ?built = "builtEntries d E host mm p upd extra c"
  have t: "ts = Num (fold max (knownTimes ?built) 0)" "manifest.timestamp m = ts"
    using createManifest_time[OF assms] by simp_all
  have "0 \<le> fold max (knownTimes ?built) 0" by (rule fold_max_ge)
  then have 1: "\<exists>n. 0 \<le> n \<and> ts = Num n \<and> manifest.timestamp m = Num n" using t by simp
  have 2: "ts = Num 0 \<and> manifest.timestamp m = Num 0"
    if "\<forall>e\<in>set ?built. entry.timestamp e = None"
    using t knownTimes_None[OF that] by simp
  show ?thesis using 1 2 by blast
qed

text \<open>The page \<open>/a/b/page\<close> and its fragment: no resource has a \<open>last-modified\<close> header.\<close>

theorem aggregate_timestamp_nonneg_witness:
  "createManifest 2 exampleEnv ''host'' spacedMap ''/a/b/page'' Map.empty [] 0
     = Some (Inr ((spacedManifest, Num 0), 0))
   \<and> list_all (\<lambda>e. entry.timestamp e = None)
        (builtEntries 2 exampleEnv ''host'' spacedMap ''/a/b/page'' Map.empty [] 0)
   \<and> manifest.timestamp spacedManifest = Num 0"
proof -
  have h: "createManifest 2 exampleEnv ''host'' spacedMap ''/a/b/page'' Map.empty [] 0
     = Some (Inr ((spacedManifest, Num 0), 0))"
    by (rule spacedManifest_returned)
  have a: "list_all (\<lambda>e. entry.timestamp e = None)
        (builtEntries 2 exampleEnv ''host'' spacedMap ''/a/b/page'' Map.empty [] 0)"
    by (simp add: numeral_2_eq_2 manifest_defs path_defs string_defs exampleEnv_def spacedMap_def
        page_def)
  then have b: "\<forall>e\<in>set (builtEntries 2 exampleEnv ''host'' spacedMap ''/a/b/page'' Map.empty [] 0).
      entry.timestamp e = None"
    by (simp only: list_all_iff)
  have "Num 0 = Num 0 \<and> manifest.timestamp spacedManifest = Num 0"
    using conjunct2[OF aggregate_timestamp_nonneg[OF h]] b by (rule mp)
  then have c: "manifest.timestamp spacedManifest = Num 0" by (rule conjunct2)
  show ?thesis using h a c by (simp only: simp_thms)
qed

section \<open>Running twice\<close>



end
